theory Spec2Isabelle
  imports Complex_Main "HOL-Library.Multiset"
begin

section \<open>Strings and the character tables of the Python runtime\<close>

text \<open>
  A Python \<open>str\<close> is a sequence of Unicode code points, so a string is a list of
  naturals.  \<open>str\<close> turns an ASCII literal into such a list.
\<close>

type_synonym cp = nat
type_synonym pstr = "cp list"

definition str :: "string \<Rightarrow> pstr" where
  "str s = map of_char s"

text \<open>
  The functions of \<open>main.py\<close> use three tables of the interpreter that are not part of
  the repository: the alphanumeric code points (behind \<open>\w\<close> and \<open>\b\<close>), the simple
  lower-case mapping of the regex engine (behind \<open>re.I\<close>) and \<open>str.lower\<close>.  Their
  ASCII part is fixed and written out below; everything at or above code point 128 is
  taken from a parameter \<open>U\<close>, and every theorem holds for all \<open>U\<close>.
\<close>

record tables =
  ucd_alnum :: "cp \<Rightarrow> bool"
  ucd_tolower :: "cp \<Rightarrow> cp"
  ucd_strlower :: "pstr \<Rightarrow> pstr"

text \<open>\<open>str.isspace\<close>, which is also the class \<open>\s\<close> of a \<open>str\<close> pattern.\<close>

definition is_space :: "cp \<Rightarrow> bool" where
  "is_space c = (9 \<le> c \<and> c \<le> 13 \<or> 28 \<le> c \<and> c \<le> 32 \<or> c = 133 \<or> c = 160 \<or> c = 5760
     \<or> 8192 \<le> c \<and> c \<le> 8202 \<or> c = 8232 \<or> c = 8233 \<or> c = 8239 \<or> c = 8287 \<or> c = 12288)"

definition ascii_lower :: "cp \<Rightarrow> cp" where
  "ascii_lower c = (if 65 \<le> c \<and> c \<le> 90 then c + 32 else c)"

text \<open>A table for concrete inputs: nothing above ASCII is a letter.\<close>

definition ascii_tables :: tables where
  "ascii_tables = \<lparr>ucd_alnum = (\<lambda>c. False), ucd_tolower = (\<lambda>c. c), ucd_strlower = map ascii_lower\<rparr>"

definition is_word :: "tables \<Rightarrow> cp \<Rightarrow> bool" where
  "is_word U c = (if c < 128
     then 48 \<le> c \<and> c \<le> 57 \<or> 65 \<le> c \<and> c \<le> 90 \<or> c = 95 \<or> 97 \<le> c \<and> c \<le> 122
     else ucd_alnum U c)"

definition sre_lower :: "tables \<Rightarrow> cp \<Rightarrow> cp" where
  "sre_lower U c = (if c < 128 then ascii_lower c else ucd_tolower U c)"

definition py_lower :: "tables \<Rightarrow> pstr \<Rightarrow> pstr" where
  "py_lower U s = (if list_all (\<lambda>c. c < 128) s then map ascii_lower s else ucd_strlower U s)"

text \<open>
  \<open>s.strip()\<close> and \<open>s.strip(chars)\<close>: drop from both ends while the character is
  white space, or is one of \<open>chars\<close>.
\<close>

definition strip_by :: "(cp \<Rightarrow> bool) \<Rightarrow> pstr \<Rightarrow> pstr" where
  "strip_by P s = rev (dropWhile P (rev (dropWhile P s)))"

definition py_strip :: "pstr \<Rightarrow> pstr" where
  "py_strip s = strip_by is_space s"

definition py_strip_chars :: "pstr \<Rightarrow> pstr \<Rightarrow> pstr" where
  "py_strip_chars chars s = strip_by (\<lambda>c. c \<in> set chars) s"

fun py_join :: "pstr \<Rightarrow> pstr list \<Rightarrow> pstr" where
  "py_join sep [] = []"
| "py_join sep [x] = x"
| "py_join sep (x # y # ys) = x @ sep @ py_join sep (y # ys)"

definition py_replace_char :: "cp \<Rightarrow> cp \<Rightarrow> pstr \<Rightarrow> pstr" where
  "py_replace_char a b s = map (\<lambda>c. if c = a then b else c) s"

section \<open>Regular expressions as the \<open>re\<close> module matches them\<close>

text \<open>
  The patterns of \<open>main.py\<close> are built from single characters and character classes,
  greedy and lazy repetition of one class, concatenation, ordered alternation, the
  optional group, the anchors \<open>^\<close>, \<open>$\<close> and \<open>\b\<close>, and capturing groups.  \<open>ChI\<close> is a
  cased literal compiled under \<open>re.I\<close>; its argument is the lower-case letter.
\<close>

datatype atom = Ch cp | ChI cp | Space | Dot | NotCh cp

datatype rx = Eps | Atom atom | Many atom | Few atom | Cat rx rx | Alt rx rx | Opt rx
  | Bol | Eol | Wb | Grp nat rx

definition ignorecase_fixes :: "cp \<Rightarrow> cp list" where
  "ignorecase_fixes x = (if x = 105 then [305] else if x = 115 then [383] else [])"

fun atom_ok :: "tables \<Rightarrow> atom \<Rightarrow> cp \<Rightarrow> bool" where
  "atom_ok U (Ch x) c = (c = x)"
| "atom_ok U (ChI x) c = (sre_lower U c \<in> set (x # ignorecase_fixes x))"
| "atom_ok U Space c = is_space c"
| "atom_ok U Dot c = (c \<noteq> 10)"
| "atom_ok U (NotCh x) c = (c \<noteq> x)"

text \<open>
  A matcher state is the character before the current position (\<open>None\<close> at the start of
  the string), the rest of the string, and the text of the groups matched so far.
  \<open>ends\<close> lists the states in which a match of the pattern can end, in the order in which
  the backtracking matcher tries them; the first one is the match that \<open>re\<close> reports.
\<close>

type_synonym mstate = "cp option \<times> pstr \<times> (nat \<rightharpoonup> pstr)"

fun many :: "(cp \<Rightarrow> bool) \<Rightarrow> mstate \<Rightarrow> mstate list" where
  "many P (p, [], g) = [(p, [], g)]"
| "many P (p, c # cs, g) =
     (if P c then many P (Some c, cs, g) @ [(p, c # cs, g)] else [(p, c # cs, g)])"

fun few :: "(cp \<Rightarrow> bool) \<Rightarrow> mstate \<Rightarrow> mstate list" where
  "few P (p, [], g) = [(p, [], g)]"
| "few P (p, c # cs, g) =
     (if P c then (p, c # cs, g) # few P (Some c, cs, g) else [(p, c # cs, g)])"

definition word_before :: "tables \<Rightarrow> cp option \<Rightarrow> bool" where
  "word_before U p = (case p of None \<Rightarrow> False | Some c \<Rightarrow> is_word U c)"

definition word_after :: "tables \<Rightarrow> pstr \<Rightarrow> bool" where
  "word_after U cs = (case cs of [] \<Rightarrow> False | c # _ \<Rightarrow> is_word U c)"

fun ends :: "tables \<Rightarrow> rx \<Rightarrow> mstate \<Rightarrow> mstate list" where
  "ends U Eps st = [st]"
| "ends U (Atom a) (p, cs, g) =
     (case cs of [] \<Rightarrow> [] | c # cs' \<Rightarrow> if atom_ok U a c then [(Some c, cs', g)] else [])"
| "ends U (Many a) st = many (atom_ok U a) st"
| "ends U (Few a) st = few (atom_ok U a) st"
| "ends U (Cat r1 r2) st = concat (map (ends U r2) (ends U r1 st))"
| "ends U (Alt r1 r2) st = ends U r1 st @ ends U r2 st"
| "ends U (Opt r) st = ends U r st @ [st]"
| "ends U Bol (p, cs, g) = (if p = None then [(p, cs, g)] else [])"
| "ends U Eol (p, cs, g) = (if cs = [] \<or> cs = [10] then [(p, cs, g)] else [])"
| "ends U Wb (p, cs, g) = (if word_before U p \<noteq> word_after U cs then [(p, cs, g)] else [])"
| "ends U (Grp n r) (p, cs, g) =
     map (\<lambda>(p', cs', g'). (p', cs', g'(n \<mapsto> take (length cs - length cs') cs)))
       (ends U r (p, cs, g))"

text \<open>\<open>re.match(r, s)\<close>: the groups of the first match at the start of \<open>s\<close>, if any.\<close>

definition re_match :: "tables \<Rightarrow> rx \<Rightarrow> pstr \<Rightarrow> (nat \<rightharpoonup> pstr) option" where
  "re_match U r s = (case ends U r (None, s, Map.empty) of [] \<Rightarrow> None | (p, cs, g) # _ \<Rightarrow> Some g)"

text \<open>\<open>re.search(r, s)\<close> as a truth value: some position of \<open>s\<close> starts a match.\<close>

fun search_from :: "tables \<Rightarrow> rx \<Rightarrow> cp option \<Rightarrow> pstr \<Rightarrow> bool" where
  "search_from U r p [] = (ends U r (p, [], Map.empty) \<noteq> [])"
| "search_from U r p (c # cs) =
     (ends U r (p, c # cs, Map.empty) \<noteq> [] \<or> search_from U r (Some c) cs)"

definition re_search :: "tables \<Rightarrow> rx \<Rightarrow> pstr \<Rightarrow> bool" where
  "re_search U r s = search_from U r None s"

text \<open>
  \<open>re.sub(r, rep, s)\<close> with a constant replacement: the leftmost match is replaced and
  the scan goes on behind it; where nothing matches, one character is copied.  After an
  empty match the next match at the same position must not be empty (flag \<open>adv\<close>).
\<close>

function re_sub_from :: "tables \<Rightarrow> rx \<Rightarrow> pstr \<Rightarrow> bool \<Rightarrow> cp option \<Rightarrow> pstr \<Rightarrow> pstr" where
  "re_sub_from U r rep adv p cs =
     (case find (\<lambda>(p', cs', g'). \<not> adv \<or> cs' \<noteq> cs) (ends U r (p, cs, Map.empty)) of
        Some (p', cs', g') \<Rightarrow>
          if length cs' < length cs then rep @ re_sub_from U r rep False p' cs'
          else if \<not> adv then rep @ re_sub_from U r rep True p cs
          else []
      | None \<Rightarrow> (case cs of [] \<Rightarrow> [] | c # cs'' \<Rightarrow> c # re_sub_from U r rep False (Some c) cs''))"
  by pat_completeness auto
termination
  by (relation "measure (\<lambda>(U, r, rep, adv, p, cs). 2 * length cs + (if adv then 0 else 1))") auto

definition re_sub :: "tables \<Rightarrow> rx \<Rightarrow> pstr \<Rightarrow> pstr \<Rightarrow> pstr" where
  "re_sub U r rep s = re_sub_from U r rep False None s"

text \<open>A literal word, and a list of alternatives tried from left to right.\<close>

fun lit :: "pstr \<Rightarrow> rx" where
  "lit [] = Eps"
| "lit (c # cs) = Cat (Atom (Ch c)) (lit cs)"

text \<open>
  A literal of a pattern compiled under \<open>re.I\<close>.  The literals of \<open>main.py\<close> are written
  in lower case; a character that is not a letter has no case and is compared as it is.
\<close>

fun lit_i :: "pstr \<Rightarrow> rx" where
  "lit_i [] = Eps"
| "lit_i (c # cs) = Cat (Atom (if 97 \<le> c \<and> c \<le> 122 then ChI c else Ch c)) (lit_i cs)"

fun alts :: "rx list \<Rightarrow> rx" where
  "alts [] = Eps"
| "alts [r] = r"
| "alts (r # rs) = Alt r (alts rs)"

section \<open>QueryBuilder\<close>

text \<open>The argument of \<open>build_ytmusic_query\<close> is a string or a sequence of strings.\<close>

datatype keywords_arg = KwStr pstr | KwSeq "pstr list"

definition rx_spaces :: rx where
  "rx_spaces = Cat (Atom Space) (Many Space)"

definition build_ytmusic_query :: "tables \<Rightarrow> keywords_arg \<Rightarrow> pstr" where
  "build_ytmusic_query U keywords =
     (let raw = (case keywords of KwStr s \<Rightarrow> s | KwSeq ks \<Rightarrow> py_join (str '' '') ks);
          raw = py_replace_char 44 32 (py_strip raw);
          raw = re_sub U rx_spaces (str '' '') raw
      in raw)"

section \<open>TextNormalizer\<close>

text \<open>
  The five patterns of \<open>_clean_title\<close>:
  \<^verbatim>\<open>\[[^\]]*\]\<close>,
  \<^verbatim>\<open>\((?:official|mv|m/v|lyric|audio|teaser|performance|ver\.?|version|shorts|full album|visualizer)[^)]*\)\<close>
  under \<open>re.I\<close>,
  \<^verbatim>\<open>(?i)\b(official\s*(video)?|mv|m/v|lyric\s*video|audio|teaser|visualizer|shorts)\b\<close>,
  \<^verbatim>\<open>\s+\|\s*.*$\<close> and \<^verbatim>\<open>\s{2,}\<close>.
\<close>

definition rx_bracket :: rx where
  "rx_bracket = Cat (Atom (Ch 91)) (Cat (Many (NotCh 93)) (Atom (Ch 93)))"

definition rx_paren :: rx where
  "rx_paren = Cat (Atom (Ch 40))
     (Cat (alts [lit_i (str ''official''), lit_i (str ''mv''), lit_i (str ''m/v''),
                 lit_i (str ''lyric''), lit_i (str ''audio''), lit_i (str ''teaser''),
                 lit_i (str ''performance''), Cat (lit_i (str ''ver'')) (Opt (Atom (Ch 46))),
                 lit_i (str ''version''), lit_i (str ''shorts''), lit_i (str ''full album''),
                 lit_i (str ''visualizer'')])
       (Cat (Many (NotCh 41)) (Atom (Ch 41))))"

definition rx_token :: rx where
  "rx_token = Cat Wb
     (Cat (Grp 1 (alts [Cat (lit_i (str ''official'')) (Cat (Many Space) (Opt (Grp 2 (lit_i (str ''video''))))),
                        lit_i (str ''mv''), lit_i (str ''m/v''),
                        Cat (lit_i (str ''lyric'')) (Cat (Many Space) (lit_i (str ''video''))),
                        lit_i (str ''audio''), lit_i (str ''teaser''), lit_i (str ''visualizer''),
                        lit_i (str ''shorts'')]))
       Wb)"

definition rx_pipe :: rx where
  "rx_pipe = Cat (Atom Space) (Cat (Many Space) (Cat (Atom (Ch 124))
     (Cat (Many Space) (Cat (Many Dot) Eol))))"

definition rx_ws2 :: rx where
  "rx_ws2 = Cat (Atom Space) (Cat (Atom Space) (Many Space))"

definition clean_title :: "tables \<Rightarrow> pstr \<Rightarrow> pstr" where
  "clean_title U s0 =
     (let s = re_sub U rx_bracket [] s0;
          s = re_sub U rx_paren [] s;
          s = re_sub U rx_token [] s;
          s = re_sub U rx_pipe [] s;
          s = py_strip_chars (str '' -|'') (re_sub U rx_ws2 (str '' '') s)
      in py_strip s)"

section \<open>TitleArtistExtractor\<close>

text \<open>
  The three separator patterns are
  \<^verbatim>\<open>^\s*(?P<artist>.+?)\s*-\s*(?P<title>.+?)\s*$\<close>, the same with the two group names
  exchanged, and the first with an em dash (U+2014) for the hyphen.  A compiled pattern
  is its expression with the index of each named group.
\<close>

definition rx_sep :: "cp \<Rightarrow> rx" where
  "rx_sep d = Cat Bol (Cat (Many Space) (Cat (Grp 1 (Cat (Atom Dot) (Few Dot)))
     (Cat (Many Space) (Cat (Atom (Ch d)) (Cat (Many Space)
       (Cat (Grp 2 (Cat (Atom Dot) (Few Dot))) (Cat (Many Space) Eol)))))))"

record pattern =
  pat_rx :: rx
  artist_group :: nat
  title_group :: nat

definition patterns :: "pattern list" where
  "patterns =
     [\<lparr>pat_rx = rx_sep 45, artist_group = 1, title_group = 2\<rparr>,
      \<lparr>pat_rx = rx_sep 45, artist_group = 2, title_group = 1\<rparr>,
      \<lparr>pat_rx = rx_sep 8212, artist_group = 1, title_group = 2\<rparr>]"

text \<open>
  \<open>m.group(name)\<close> is \<open>None\<close> for a group that took no part in the match, and
  \<open>_clean_title(None)\<close> raises \<open>TypeError\<close>.
\<close>

datatype py_error = TypeError | ValueError | KeyError

fun try_patterns :: "tables \<Rightarrow> pattern list \<Rightarrow> pstr \<Rightarrow> py_error + (pstr \<times> pstr) option" where
  "try_patterns U [] t = Inr None"
| "try_patterns U (p # ps) t =
     (case re_match U (pat_rx p) t of
        None \<Rightarrow> try_patterns U ps t
      | Some g \<Rightarrow>
          (case g (artist_group p) of
             None \<Rightarrow> Inl TypeError
           | Some a \<Rightarrow>
               (case g (title_group p) of
                  None \<Rightarrow> Inl TypeError
                | Some ti \<Rightarrow>
                    (let artist = clean_title U a; title = clean_title U ti
                     in if artist \<noteq> [] \<and> title \<noteq> [] then Inr (Some (title, artist))
                        else try_patterns U ps t))))"

text \<open>\<open>x or ""\<close> for an argument that is a string or \<open>None\<close>, and \<open>a or x or ""\<close>.\<close>

definition or_empty :: "pstr option \<Rightarrow> pstr" where
  "or_empty x = (case x of None \<Rightarrow> [] | Some s \<Rightarrow> s)"

definition or_else :: "pstr \<Rightarrow> pstr option \<Rightarrow> pstr" where
  "or_else a x = (if a \<noteq> [] then a else or_empty x)"

definition endswith :: "pstr \<Rightarrow> pstr \<Rightarrow> bool" where
  "endswith s suf = (length suf \<le> length s \<and> drop (length s - length suf) s = suf)"

definition extract_with :: "tables \<Rightarrow> pattern list \<Rightarrow> pstr option \<Rightarrow> pstr option \<Rightarrow> py_error + pstr \<times> pstr" where
  "extract_with U ps video_title channel_title =
     (let t = clean_title U (or_empty video_title);
          c = py_strip (or_empty channel_title)
      in case try_patterns U ps t of
           Inl e \<Rightarrow> Inl e
         | Inr (Some r) \<Rightarrow> Inr r
         | Inr None \<Rightarrow>
             (let c = (if c \<noteq> [] \<and> endswith (py_lower U c) (str '' - topic'')
                       then py_strip (take (length c - 8) c) else c)
              in if t \<noteq> [] \<and> c \<noteq> [] then Inr (t, c)
                 else Inr (py_strip (or_else t video_title), py_strip (or_else c channel_title))))"

definition extract_title_artist :: "tables \<Rightarrow> pstr option \<Rightarrow> pstr option \<Rightarrow> py_error + pstr \<times> pstr" where
  "extract_title_artist U video_title channel_title = extract_with U patterns video_title channel_title"

section \<open>RecommendationRanker\<close>

text \<open>
  A result of \<open>youtube_search_music\<close> is a dictionary with the six keys written at lines
  99 to 106; \<open>rank_recommendations\<close> adds the key \<open>score\<close>, which is absent (\<open>None\<close>)
  before.  The preferences are the dictionary that \<open>build_user_prefs\<close> returns (its
  key \<open>keywords\<close> is the field \<open>pref_keywords\<close>).  A
  Python \<open>float\<close> is modelled by a real number.
\<close>

record item =
  song_title :: pstr
  artist :: pstr
  url :: pstr
  title :: pstr
  channel :: pstr
  views :: int
  score :: "real option"

record prefs =
  pref_keywords :: "pstr list"
  keywords_lower :: "pstr list"
  penalty_terms :: "pstr list"

fun split_on :: "cp \<Rightarrow> pstr \<Rightarrow> pstr list" where
  "split_on d [] = [[]]"
| "split_on d (c # cs) =
     (if c = d then [] # split_on d cs
      else (case split_on d cs of [] \<Rightarrow> [[c]] | x # xs \<Rightarrow> (c # x) # xs))"

definition build_user_prefs :: "tables \<Rightarrow> keywords_arg \<Rightarrow> prefs" where
  "build_user_prefs U kwarg =
     (let kws = (case kwarg of
                   KwStr s \<Rightarrow> filter (\<lambda>k. k \<noteq> []) (map py_strip (split_on 44 s))
                 | KwSeq ks \<Rightarrow> filter (\<lambda>k. k \<noteq> []) (map py_strip ks))
      in \<lparr>pref_keywords = kws, keywords_lower = map (py_lower U) kws,
          penalty_terms = [str ''live'', str ''cover'', str ''remix'']\<rparr>)"

text \<open>\<open>kw in text\<close> for two strings.\<close>

fun py_contains :: "pstr \<Rightarrow> pstr \<Rightarrow> bool" where
  "py_contains kw [] = (kw = [])"
| "py_contains kw (c # cs) = (take (length kw) (c # cs) = kw \<or> py_contains kw cs)"

definition item_title :: "tables \<Rightarrow> item \<Rightarrow> pstr" where
  "item_title U it =
     py_lower U (if song_title it \<noteq> [] then song_title it else if title it \<noteq> [] then title it else [])"

definition item_artist :: "tables \<Rightarrow> item \<Rightarrow> pstr" where
  "item_artist U it =
     py_lower U (if artist it \<noteq> [] then artist it else if channel it \<noteq> [] then channel it else [])"

definition item_text :: "tables \<Rightarrow> item \<Rightarrow> pstr" where
  "item_text U it = item_title U it @ str '' '' @ item_artist U it"

fun kw_loop :: "pstr \<Rightarrow> pstr \<Rightarrow> pstr \<Rightarrow> pstr list \<Rightarrow> real \<Rightarrow> real" where
  "kw_loop txt ti ar [] acc = acc"
| "kw_loop txt ti ar (kw # kws) acc =
     (if kw = [] then kw_loop txt ti ar kws acc
      else (let acc = (if py_contains kw txt then acc + 2 else acc);
                acc = (if py_contains kw ti then acc + 1 else acc);
                acc = (if py_contains kw ar then acc + 1 else acc)
            in kw_loop txt ti ar kws acc))"

definition kw_score :: "tables \<Rightarrow> item \<Rightarrow> prefs \<Rightarrow> real" where
  "kw_score U it p = kw_loop (item_text U it) (item_title U it) (item_artist U it) (keywords_lower p) 0"

text \<open>\<open>math.log10\<close> raises \<open>ValueError\<close> unless its argument is positive.\<close>

definition pop_score :: "item \<Rightarrow> py_error + real" where
  "pop_score it = (if views it + 1 \<le> 0 then Inl ValueError else Inr (log 10 (real_of_int (views it + 1))))"

text \<open>
  The pattern \<^verbatim>\<open>\b\<close>\<open>re.escape(t)\<close>\<^verbatim>\<open>\b\<close>: the escaped term matches its own characters.
\<close>

definition rx_word :: "pstr \<Rightarrow> rx" where
  "rx_word t = Cat Wb (Cat (lit t) Wb)"

fun penalty_loop :: "tables \<Rightarrow> pstr \<Rightarrow> pstr list \<Rightarrow> real \<Rightarrow> real" where
  "penalty_loop U txt [] acc = acc"
| "penalty_loop U txt (t # ts) acc =
     penalty_loop U txt ts (if re_search U (rx_word t) txt then acc + 1 else acc)"

definition kw_has_penalty_terms :: "prefs \<Rightarrow> bool" where
  "kw_has_penalty_terms p = list_ex (\<lambda>t. t \<in> set (keywords_lower p)) (penalty_terms p)"

definition penalty :: "tables \<Rightarrow> item \<Rightarrow> prefs \<Rightarrow> real" where
  "penalty U it p =
     (if \<not> kw_has_penalty_terms p then penalty_loop U (item_text U it) (penalty_terms p) 0 else 0)"

definition score_item :: "tables \<Rightarrow> item \<Rightarrow> prefs \<Rightarrow> py_error + real" where
  "score_item U it p =
     (let kw = kw_score U it p
      in case pop_score it of
           Inl e \<Rightarrow> Inl e
         | Inr pop \<Rightarrow> Inr (kw * 1.5 + pop * 0.7 - penalty U it p * 0.8))"

text \<open>\<open>round(s, 3)\<close>: to the nearest multiple of a thousandth, a tie to the even one.\<close>

definition round_half_even :: "real \<Rightarrow> int" where
  "round_half_even x =
     (let f = \<lfloor>x\<rfloor>; d = x - of_int f
      in if d < 1 / 2 then f else if 1 / 2 < d then f + 1 else if even f then f else f + 1)"

definition round3 :: "real \<Rightarrow> real" where
  "round3 x = of_int (round_half_even (x * 1000)) / 1000"

text \<open>
  The records are objects: a list of records is a list of references into a heap, and
  \<open>dict(it)\<close> allocates a new object.  The heap is the list of all objects, a reference is
  an index, and a new object goes to the end.
\<close>

type_synonym addr = nat
type_synonym heap = "item list"

definition alloc :: "item \<Rightarrow> heap \<Rightarrow> addr \<times> heap" where
  "alloc it h = (length h, h @ [it])"

definition set_score :: "addr \<Rightarrow> real \<Rightarrow> heap \<Rightarrow> heap" where
  "set_score a v h = h[a := (h ! a)\<lparr>score := Some v\<rparr>]"

fun rank_loop :: "tables \<Rightarrow> prefs \<Rightarrow> addr list \<Rightarrow> addr list \<Rightarrow> heap \<Rightarrow> (py_error + addr list) \<times> heap" where
  "rank_loop U p [] ranked h = (Inr ranked, h)"
| "rank_loop U p (it # its) ranked h =
     (case score_item U (h ! it) p of
        Inl e \<Rightarrow> (Inl e, h)
      | Inr s \<Rightarrow>
          (let (it2, h) = alloc (h ! it) h;
               h = set_score it2 (round3 s) h
           in rank_loop U p its (ranked @ [it2]) h))"

text \<open>
  \<open>xs.sort(key=f, reverse=True)\<close>: the keys are computed first (a missing key raises
  \<open>KeyError\<close>), then the list is reversed, sorted by a stable sort and reversed again.
\<close>

fun sort_keys :: "heap \<Rightarrow> addr list \<Rightarrow> py_error + (real \<times> addr) list" where
  "sort_keys h [] = Inr []"
| "sort_keys h (x # xs) =
     (case score (h ! x) of
        None \<Rightarrow> Inl KeyError
      | Some k \<Rightarrow> (case sort_keys h xs of Inl e \<Rightarrow> Inl e | Inr ks \<Rightarrow> Inr ((k, x) # ks)))"

definition sort_reverse :: "(real \<times> addr) list \<Rightarrow> addr list" where
  "sort_reverse kxs = map snd (rev (sort_key fst (rev kxs)))"

definition rank_recommendations :: "tables \<Rightarrow> heap \<Rightarrow> addr list \<Rightarrow> prefs \<Rightarrow> (py_error + addr list) \<times> heap" where
  "rank_recommendations U h items p =
     (case rank_loop U p items [] h of
        (Inl e, h') \<Rightarrow> (Inl e, h')
      | (Inr ranked, h') \<Rightarrow>
          (case sort_keys h' ranked of
             Inl e \<Rightarrow> (Inl e, h')
           | Inr kxs \<Rightarrow> (Inr (sort_reverse kxs), h')))"

section \<open>Notions used in the statements\<close>

text \<open>The pattern list without its second entry, for the comparison of C5.\<close>

definition patterns_without_b :: "pattern list" where
  "patterns_without_b =
     [\<lparr>pat_rx = rx_sep 45, artist_group = 1, title_group = 2\<rparr>,
      \<lparr>pat_rx = rx_sep 8212, artist_group = 1, title_group = 2\<rparr>]"

text \<open>The groups that every match of a pattern sets: those not under an alternative.\<close>

fun sure_groups :: "rx \<Rightarrow> nat set" where
  "sure_groups (Grp n r) = insert n (sure_groups r)"
| "sure_groups (Cat r1 r2) = sure_groups r1 \<union> sure_groups r2"
| "sure_groups (Alt r1 r2) = sure_groups r1 \<inter> sure_groups r2"
| "sure_groups r = {}"

text \<open>
  A term occurs in a text as a whole word: some occurrence has no word character next to
  it on either side.
\<close>

definition whole_word :: "tables \<Rightarrow> pstr \<Rightarrow> pstr \<Rightarrow> bool" where
  "whole_word U t txt =
     (\<exists>pre post. txt = pre @ t @ post
        \<and> (pre = [] \<or> \<not> is_word U (last pre)) \<and> (post = [] \<or> \<not> is_word U (hd post)))"

text \<open>A string has a white space character directly before a pipe.\<close>

fun ws_pipe :: "pstr \<Rightarrow> bool" where
  "ws_pipe (x # y # zs) = (is_space x \<and> y = 124 \<or> ws_pipe (y # zs))"
| "ws_pipe zs = False"

text \<open>A string has no two white space characters in a row.\<close>

fun no_ws2 :: "pstr \<Rightarrow> bool" where
  "no_ws2 (x # y # zs) = (\<not> (is_space x \<and> is_space y) \<and> no_ws2 (y # zs))"
| "no_ws2 zs = True"

text \<open>Two records and a preference dictionary for concrete instances.\<close>

definition demo_item :: item where
  "demo_item = \<lparr>song_title = str ''Good Day (Live)'', artist = str ''IU'', url = str ''u1'',
     title = str ''IU - Good Day (Live)'', channel = str ''IU'', views = 0, score = None\<rparr>"

definition demo_item2 :: item where
  "demo_item2 = \<lparr>song_title = str ''Alive'', artist = str ''IU'', url = str ''u2'',
     title = str ''IU - Alive'', channel = str ''IU'', views = 9, score = None\<rparr>"

definition demo_heap :: heap where
  "demo_heap = [demo_item, demo_item2]"

definition cover_prefs :: prefs where
  "cover_prefs = build_user_prefs ascii_tables (KwStr (str ''cover''))"

definition demo_prefs :: prefs where
  "demo_prefs = build_user_prefs ascii_tables (KwStr (str ''iu, Ballad,,day''))"

section \<open>Evaluation on concrete inputs\<close>

lemmas string_defs = str_def py_strip_def py_strip_chars_def strip_by_def is_space_def
  py_replace_char_def py_lower_def ascii_lower_def

lemmas regex_defs = re_sub_def re_match_def re_search_def is_word_def sre_lower_def
  ignorecase_fixes_def word_before_def word_after_def

lemmas pattern_defs = rx_spaces_def rx_bracket_def rx_paren_def rx_token_def rx_pipe_def
  rx_ws2_def rx_sep_def rx_word_def

section \<open>QueryBuilder: idempotence\<close>

text \<open>
  C1.  \<open>build_ytmusic_query\<close> applied to its own result gives the same string.  The
  function strips before it turns commas into spaces, so a comma at either end of the
  input leaves a space at that end of the result, and a second application removes it:
  the query for \<open>",a"\<close> is \<open>" a"\<close>, and the query for \<open>" a"\<close> is \<open>"a"\<close>.
\<close>

theorem build_query_leading_comma:
  "build_ytmusic_query U (KwStr (str '',a'')) = str '' a''
   \<and> build_ytmusic_query U (KwStr (build_ytmusic_query U (KwStr (str '',a'')))) = str ''a''"
  by (simp add: build_ytmusic_query_def string_defs regex_defs pattern_defs)

section \<open>TextNormalizer: the pipe\<close>

lemma many_hd:
  "many P (p, cs, g) \<noteq> []
   \<and> hd (many P (p, cs, g))
       = (if takeWhile P cs = [] then p else Some (last (takeWhile P cs)), dropWhile P cs, g)"
  by (induction cs arbitrary: p) (auto simp: hd_append)

lemma many_set:
  "(p', cs', g') \<in> set (many P (p, cs, g)) \<Longrightarrow> g' = g \<and> (\<exists>w. cs = w @ cs' \<and> (\<forall>c\<in>set w. P c))"
proof (induction cs arbitrary: p)
  case Nil
  then show ?case by simp
next
  case (Cons c cs)
  show ?case
  proof (cases "P c \<and> (p', cs', g') \<in> set (many P (Some c, cs, g))")
    case True
    with Cons.IH[of "Some c"] obtain w where "g' = g" "cs = w @ cs'" "\<forall>c\<in>set w. P c" by blast
    then have "c # cs = (c # w) @ cs'" "\<forall>x\<in>set (c # w). P x" using True by auto
    with \<open>g' = g\<close> show ?thesis by blast
  next
    case False
    with Cons.prems have "cs' = c # cs" "g' = g" by (auto split: if_splits)
    then show ?thesis by auto
  qed
qed

lemma cat_hd:
  "ends U r1 st \<noteq> [] \<Longrightarrow> ends U r2 (hd (ends U r1 st)) \<noteq> []
   \<Longrightarrow> ends U (Cat r1 r2) st \<noteq> []
       \<and> hd (ends U (Cat r1 r2) st) = hd (ends U r2 (hd (ends U r1 st)))"
  by (cases "ends U r1 st") auto

lemma sub_nomatch:
  "ends U r (p, cs, Map.empty) = [] \<Longrightarrow>
   re_sub_from U r rep False p cs
     = (case cs of [] \<Rightarrow> [] | c # cs' \<Rightarrow> c # re_sub_from U r rep False (Some c) cs')"
  by (subst re_sub_from.simps) simp

lemma sub_match:
  "ends U r (p, cs, Map.empty) \<noteq> [] \<Longrightarrow> hd (ends U r (p, cs, Map.empty)) = (p', cs', g')
   \<Longrightarrow> length cs' < length cs
   \<Longrightarrow> re_sub_from U r rep False p cs = rep @ re_sub_from U r rep False p' cs'"
  by (subst re_sub_from.simps) (cases "ends U r (p, cs, Map.empty)"; simp)

text \<open>The tail of the pipe pattern, after the \<open>|\<close>, on a rest without a line feed.\<close>

lemma pipe_tail:
  assumes "10 \<notin> set b"
  shows "ends U (Cat (Many Space) (Cat (Many Dot) Eol)) (p, b, g) \<noteq> []
     \<and> fst (snd (hd (ends U (Cat (Many Space) (Cat (Many Dot) Eol)) (p, b, g)))) = []"
proof -
  have dots: "ends U (Cat (Many Dot) Eol) (q, d, g) \<noteq> []
       \<and> fst (snd (hd (ends U (Cat (Many Dot) Eol) (q, d, g)))) = []" if "10 \<notin> set d" for q d
  proof -
    from that have dw: "dropWhile (atom_ok U Dot) d = []" by (induction d) auto
    have m: "ends U (Many Dot) (q, d, g) \<noteq> []"
      "hd (ends U (Many Dot) (q, d, g))
         = (if takeWhile (atom_ok U Dot) d = [] then q else Some (last (takeWhile (atom_ok U Dot) d)), [], g)"
      using many_hd[of "atom_ok U Dot" q d g] dw by simp_all
    have e: "ends U Eol (hd (ends U (Many Dot) (q, d, g))) \<noteq> []"
      "fst (snd (hd (ends U Eol (hd (ends U (Many Dot) (q, d, g)))))) = []"
      unfolding m(2) by simp_all
    from cat_hd[OF m(1) e(1)] e(2) show ?thesis by simp
  qed
  let ?d = "dropWhile is_space b"
  have "set ?d \<subseteq> set b" by (auto dest: set_dropWhileD)
  with assms have nd: "10 \<notin> set ?d" by auto
  have m: "ends U (Many Space) (p, b, g) \<noteq> []"
    "hd (ends U (Many Space) (p, b, g))
       = (if takeWhile is_space b = [] then p else Some (last (takeWhile is_space b)), ?d, g)"
    using many_hd[of "atom_ok U Space" p b g] by (simp_all add: atom_ok.simps[abs_def])
  from dots[OF nd] have t: "ends U (Cat (Many Dot) Eol) (hd (ends U (Many Space) (p, b, g))) \<noteq> []"
    "fst (snd (hd (ends U (Cat (Many Dot) Eol) (hd (ends U (Many Space) (p, b, g)))))) = []"
    unfolding m(2) by simp_all
  from cat_hd[OF m(1) t(1)] t(2) show ?thesis by simp
qed

lemma pipe_match:
  assumes c: "is_space c" and w: "\<forall>x\<in>set w. is_space x" and b: "10 \<notin> set b"
  shows "ends U rx_pipe (p, c # w @ 124 # b, g) \<noteq> []
     \<and> fst (snd (hd (ends U rx_pipe (p, c # w @ 124 # b, g)))) = []"
proof -
  let ?T = "Cat (Many Space) (Cat (Many Dot) Eol)"
  let ?B = "Cat (Atom (Ch 124)) ?T"
  have ns: "\<not> is_space 124" by (simp add: is_space_def)
  from w ns have dw: "dropWhile is_space (w @ 124 # b) = 124 # b"
    by (induction w) auto
  have bar: "ends U ?B (q, 124 # b, g) = ends U ?T (Some 124, b, g)" for q
    by simp
  have m: "ends U (Many Space) (Some c, w @ 124 # b, g) \<noteq> []"
    "snd (hd (ends U (Many Space) (Some c, w @ 124 # b, g))) = (124 # b, g)"
    using many_hd[of "atom_ok U Space" "Some c" "w @ 124 # b" g] dw
    by (simp_all add: atom_ok.simps[abs_def])
  obtain q where q: "hd (ends U (Many Space) (Some c, w @ 124 # b, g)) = (q, 124 # b, g)"
    using m(2) by (cases "hd (ends U (Many Space) (Some c, w @ 124 # b, g))") auto
  have t: "ends U ?B (hd (ends U (Many Space) (Some c, w @ 124 # b, g))) \<noteq> []"
    "fst (snd (hd (ends U ?B (hd (ends U (Many Space) (Some c, w @ 124 # b, g)))))) = []"
    unfolding q bar using pipe_tail[OF b, of U "Some 124" g] by simp_all
  from cat_hd[OF m(1) t(1)] t(2)
  have r: "ends U (Cat (Many Space) ?B) (Some c, w @ 124 # b, g) \<noteq> []"
    "fst (snd (hd (ends U (Cat (Many Space) ?B) (Some c, w @ 124 # b, g)))) = []"
    by simp_all
  have "ends U rx_pipe (p, c # w @ 124 # b, g) = ends U (Cat (Many Space) ?B) (Some c, w @ 124 # b, g)"
    using c by (simp add: rx_pipe_def)
  with r show ?thesis by simp
qed

lemma cat_ne:
  "ends U (Cat r1 r2) st \<noteq> [] \<Longrightarrow> \<exists>st'\<in>set (ends U r1 st). ends U r2 st' \<noteq> []"
  by auto

lemma pipe_match_shape:
  assumes "ends U rx_pipe (p, cs, g) \<noteq> []"
  shows "\<exists>c w b. cs = c # w @ 124 # b \<and> is_space c \<and> (\<forall>x\<in>set w. is_space x)"
proof -
  let ?T = "Cat (Many Space) (Cat (Many Dot) Eol)"
  let ?B = "Cat (Atom (Ch 124)) ?T"
  from assms obtain c cs1 where cs: "cs = c # cs1" and c: "is_space c"
    and ne: "ends U (Cat (Many Space) ?B) (Some c, cs1, g) \<noteq> []"
    by (cases cs) (auto simp: rx_pipe_def split: if_splits)
  from cat_ne[OF ne] obtain st where st: "st \<in> set (many (atom_ok U Space) (Some c, cs1, g))"
    and ne2: "ends U ?B st \<noteq> []"
    unfolding ends.simps(3) by blast
  obtain p1 cs2 g1 where st_eq: "st = (p1, cs2, g1)" by (cases st)
  from many_set[OF st[unfolded st_eq]] obtain w where w: "cs1 = w @ cs2" "\<forall>x\<in>set w. is_space x"
    by (auto simp: atom_ok.simps[abs_def])
  from ne2 st_eq obtain b where "cs2 = 124 # b"
    by (cases cs2) (auto split: if_splits)
  with cs c w show ?thesis by blast
qed

lemma ws_pipe_run:
  "w \<noteq> [] \<Longrightarrow> \<forall>c\<in>set w. is_space c \<Longrightarrow> ws_pipe (w @ 124 # b)"
proof (induction w)
  case Nil
  then show ?case by simp
next
  case (Cons c w)
  then show ?case by (cases w) auto
qed

lemma ws_pipe_Cons: "ws_pipe cs \<Longrightarrow> ws_pipe (c # cs)"
  by (cases cs) auto

lemma ws_pipe_append: "ws_pipe a \<Longrightarrow> ws_pipe (a @ b)"
proof (induction a rule: ws_pipe.induct)
  case (1 x y zs)
  then show ?case by auto
qed simp_all

lemma pipe_no_match:
  assumes "\<not> ws_pipe cs"
  shows "ends U rx_pipe (p, cs, g) = []"
proof (rule ccontr)
  assume "ends U rx_pipe (p, cs, g) \<noteq> []"
  from pipe_match_shape[OF this] obtain c w b where
    "cs = (c # w) @ 124 # b" "\<forall>x\<in>set (c # w). is_space x" by auto
  with ws_pipe_run[of "c # w" b] assms show False by simp
qed

lemma pipe_keeps:
  "\<not> ws_pipe s \<Longrightarrow> re_sub_from U rx_pipe rep False p s = s"
proof (induction s arbitrary: p)
  case Nil
  then show ?case using sub_nomatch[OF pipe_no_match[of "[]" U p Map.empty]] by simp
next
  case (Cons c s)
  from Cons.prems have "\<not> ws_pipe s" using ws_pipe_Cons by blast
  with Cons.IH have "re_sub_from U rx_pipe rep False (Some c) s = s" .
  with sub_nomatch[OF pipe_no_match[OF Cons.prems, of U p Map.empty], of rep] show ?case by simp
qed

lemma pipe_cuts:
  assumes "w \<noteq> []" "\<forall>c\<in>set w. is_space c" "10 \<notin> set b"
  shows "\<not> ws_pipe a \<Longrightarrow> a = [] \<or> \<not> is_space (last a)
         \<Longrightarrow> re_sub_from U rx_pipe [] False p (a @ w @ 124 # b) = a"
proof (induction a arbitrary: p)
  case Nil
  from assms obtain c w' where w: "w = c # w'" "is_space c" "\<forall>x\<in>set w'. is_space x"
    by (cases w) auto
  from pipe_match[OF w(2,3) assms(3), of U p Map.empty]
  obtain p' g' where ne: "ends U rx_pipe (p, c # w' @ 124 # b, Map.empty) \<noteq> []"
    and h: "hd (ends U rx_pipe (p, c # w' @ 124 # b, Map.empty)) = (p', [], g')"
    by (cases "hd (ends U rx_pipe (p, c # w' @ 124 # b, Map.empty))") auto
  have "re_sub_from U rx_pipe [] False p' [] = []"
    using pipe_keeps[of "[]" U "[]" p'] by simp
  with sub_match[OF ne h, of "[]"] w show ?case by simp
next
  case (Cons c a)
  have "ends U rx_pipe (p, (c # a) @ w @ 124 # b, Map.empty) = []"
  proof (rule ccontr)
    assume "ends U rx_pipe (p, (c # a) @ w @ 124 # b, Map.empty) \<noteq> []"
    from pipe_match_shape[OF this] obtain c0 w0 b0 where
      eq: "(c # a) @ w @ 124 # b = (c0 # w0) @ 124 # b0" and sp: "\<forall>x\<in>set (c0 # w0). is_space x"
      by auto
    from Cons.prems(2) have nl: "\<not> is_space (last (c # a))" by simp
    have ns: "\<not> is_space 124" by (simp add: is_space_def)
    have e1: "dropWhile is_space ((c # a) @ w @ 124 # b) = dropWhile is_space (c # a) @ w @ 124 # b"
      using nl by (intro dropWhile_append1[of "last (c # a)"]) auto
    have e2: "dropWhile is_space ((c0 # w0) @ 124 # b0) = 124 # b0"
      using sp ns by (subst dropWhile_append2) auto
    have d: "dropWhile is_space (c # a) @ w @ 124 # b = 124 # b0"
      using e1[unfolded eq e2] by (rule sym)
    have lm: "last (c # a) \<in> set (c # a)" by (rule last_in_set) simp
    have "dropWhile is_space (c # a) \<noteq> []"
      unfolding dropWhile_eq_Nil_conv using nl lm by blast
    with d obtain r where r: "dropWhile is_space (c # a) = 124 # r"
      by (cases "dropWhile is_space (c # a)") auto
    have "is_space c" using eq sp by simp
    then have tw: "takeWhile is_space (c # a) \<noteq> []" by simp
    have "ws_pipe (takeWhile is_space (c # a) @ 124 # r)"
      using tw by (intro ws_pipe_run) (auto dest: set_takeWhileD)
    then have "ws_pipe (takeWhile is_space (c # a) @ dropWhile is_space (c # a))"
      unfolding r .
    then have "ws_pipe (c # a)" unfolding takeWhile_dropWhile_id .
    with Cons.prems(1) show False by blast
  qed
  from sub_nomatch[OF this, of "[]"]
  have "re_sub_from U rx_pipe [] False p ((c # a) @ w @ 124 # b)
        = c # re_sub_from U rx_pipe [] False (Some c) (a @ w @ 124 # b)" by simp
  moreover have "\<not> ws_pipe a" using Cons.prems(1) ws_pipe_Cons by blast
  moreover have "a = [] \<or> \<not> is_space (last a)" using Cons.prems(2) by (cases a) auto
  ultimately show ?case using Cons.IH by simp
qed

text \<open>
  C2.  \<open>_clean_title\<close> cuts the title at the first \<open>|\<close> and drops everything after it.
  The fourth substitution is \<open>\s+\|\s*.*$\<close>: it needs at least one whitespace character
  in front of the pipe, so \<open>"a|b"\<close> comes back as it is.  What holds: the
  substitution is the fourth of the five steps; a string with no whitespace character
  directly followed by \<open>|\<close> passes through it unchanged; and where \<open>a\<close> has no such
  pair and does not end in whitespace, \<open>w\<close> is a non-empty run of whitespace and \<open>b\<close>
  has no line feed, \<open>a w | b\<close> is cut down to \<open>a\<close>: the whitespace, the pipe and the
  rest of the line all go.
\<close>

theorem pipe_truncation:
  "clean_title U s0
     = py_strip (py_strip_chars (str '' -|'') (re_sub U rx_ws2 (str '' '')
         (re_sub U rx_pipe [] (re_sub U rx_token [] (re_sub U rx_paren [] (re_sub U rx_bracket [] s0))))))
   \<and> (\<not> ws_pipe s \<longrightarrow> re_sub U rx_pipe [] s = s)
   \<and> (\<not> ws_pipe a \<and> (a = [] \<or> \<not> is_space (last a)) \<and> w \<noteq> [] \<and> (\<forall>c\<in>set w. is_space c)
        \<and> 10 \<notin> set b
      \<longrightarrow> re_sub U rx_pipe [] (a @ w @ 124 # b) = a)"
  using pipe_keeps[of s U "[]" None] pipe_cuts[of w b a U None]
  by (simp add: clean_title_def re_sub_def Let_def)

text \<open>
  On \<open>"a|b"\<close> the substitution changes nothing; on \<open>"x | y | z"\<close> it leaves \<open>"x"\<close>.
\<close>

theorem pipe_truncation_witness:
  "\<not> ws_pipe (str ''a|b'') \<and> re_sub ascii_tables rx_pipe [] (str ''a|b'') = str ''a|b''
   \<and> \<not> ws_pipe (str ''x'') \<and> \<not> is_space (last (str ''x'')) \<and> 10 \<notin> set (str '' y | z'')
   \<and> re_sub ascii_tables rx_pipe [] (str ''x'' @ str '' '' @ 124 # str '' y | z'') = str ''x''"
  using pipe_truncation[of ascii_tables "[]" "str ''a|b''" "str ''x''" "str '' ''" "str '' y | z''"]
  by (simp add: str_def is_space_def)

text \<open>The cleaned form of \<open>"a|b"\<close> still has its pipe and what follows it.\<close>

theorem pipe_kept_counterexample:
  "clean_title ascii_tables (str ''a|b'') = str ''a|b''"
  by (simp add: clean_title_def Let_def string_defs regex_defs pattern_defs ascii_tables_def)

section \<open>TextNormalizer: a second cleaning\<close>

lemma no_ws2_Cons:
  "no_ws2 (c # out) \<longleftrightarrow> (out = [] \<or> \<not> (is_space c \<and> is_space (hd out))) \<and> no_ws2 out"
  by (cases out) auto

lemma no_ws2_iff:
  "no_ws2 xs \<longleftrightarrow> (\<forall>a x y b. xs = a @ x # y # b \<longrightarrow> \<not> (is_space x \<and> is_space y))"
proof (induction xs rule: no_ws2.induct)
  case (1 x y zs)
  show ?case
  proof
    assume l: "no_ws2 (x # y # zs)"
    show "\<forall>a x' y' b. x # y # zs = a @ x' # y' # b \<longrightarrow> \<not> (is_space x' \<and> is_space y')"
    proof (intro allI impI)
      fix a x' y' b
      assume e: "x # y # zs = a @ x' # y' # b"
      show "\<not> (is_space x' \<and> is_space y')"
      proof (cases a)
        case Nil
        with e l show ?thesis by simp
      next
        case (Cons a0 a')
        with e have t: "y # zs = a' @ x' # y' # b" by simp
        from l have "no_ws2 (y # zs)" by simp
        with 1 have "\<forall>a u v b. y # zs = a @ u # v # b \<longrightarrow> \<not> (is_space u \<and> is_space v)"
          by blast
        with t show ?thesis by blast
      qed
    qed
  next
    assume r: "\<forall>a x' y' b. x # y # zs = a @ x' # y' # b \<longrightarrow> \<not> (is_space x' \<and> is_space y')"
    from r[rule_format, of "[]" x y zs] have h: "\<not> (is_space x \<and> is_space y)" by simp
    have "\<not> (is_space x' \<and> is_space y')" if "y # zs = a @ x' # y' # b" for a x' y' b
      using r[rule_format, of "x # a" x' y' b] that by simp
    with 1 have "no_ws2 (y # zs)" by blast
    with h show "no_ws2 (x # y # zs)" by simp
  qed
qed (simp_all add: Cons_eq_append_conv)

lemma no_ws2_rev: "no_ws2 xs \<Longrightarrow> no_ws2 (rev xs)"
proof -
  assume n: "no_ws2 xs"
  have "\<not> (is_space x \<and> is_space y)" if e: "rev xs = a @ x # y # b" for a x y b
  proof -
    from e have "xs = rev (a @ x # y # b)" by (simp add: rev_swap)
    then have "xs = rev b @ y # x # rev a" by simp
    with n[unfolded no_ws2_iff] show ?thesis by blast
  qed
  then show ?thesis unfolding no_ws2_iff by blast
qed

lemma no_ws2_dropWhile: "no_ws2 xs \<Longrightarrow> no_ws2 (dropWhile P xs)"
proof -
  assume n: "no_ws2 xs"
  have "\<not> (is_space x \<and> is_space y)" if e: "dropWhile P xs = a @ x # y # b" for a x y b
  proof -
    have "xs = (takeWhile P xs @ a) @ x # y # b"
      using takeWhile_dropWhile_id[of P xs] e by simp
    with n[unfolded no_ws2_iff] show ?thesis by blast
  qed
  then show ?thesis unfolding no_ws2_iff by blast
qed

lemma no_ws2_strip: "no_ws2 xs \<Longrightarrow> no_ws2 (strip_by P xs)"
  unfolding strip_by_def by (intro no_ws2_rev no_ws2_dropWhile)

lemma last_dropWhile: "dropWhile P xs \<noteq> [] \<Longrightarrow> last (dropWhile P xs) = last xs"
  by (induction xs) (auto split: if_splits)

lemma strip_by_ends:
  assumes "strip_by P s \<noteq> []"
  shows "\<not> P (hd (strip_by P s)) \<and> \<not> P (last (strip_by P s))"
proof -
  let ?d = "dropWhile P s"
  let ?e = "dropWhile P (rev ?d)"
  from assms have e: "?e \<noteq> []" by (simp add: strip_by_def)
  have d: "?d \<noteq> []"
  proof
    assume a: "?d = []"
    show False using e unfolding a by simp
  qed
  have "hd (rev ?e) = last ?e" using e by (simp add: hd_rev)
  also have "\<dots> = last (rev ?d)" using e by (rule last_dropWhile)
  also have "\<dots> = hd ?d" using d by (simp add: last_rev)
  finally have "hd (strip_by P s) = hd ?d" by (simp add: strip_by_def)
  moreover have "\<not> P (hd ?d)" using d by (rule hd_dropWhile)
  moreover have "last (rev ?e) = hd ?e" using e by (simp add: last_rev)
  moreover have "\<not> P (hd ?e)" using e by (rule hd_dropWhile)
  ultimately show ?thesis by (simp add: strip_by_def)
qed

lemma dropWhile_hd: "xs \<noteq> [] \<Longrightarrow> \<not> P (hd xs) \<Longrightarrow> dropWhile P xs = xs"
  by (cases xs) auto

lemma strip_by_id:
  assumes "s = [] \<or> \<not> P (hd s) \<and> \<not> P (last s)"
  shows "strip_by P s = s"
proof (cases s)
  case Nil
  then show ?thesis by (simp add: strip_by_def)
next
  case (Cons c cs)
  with assms have h: "\<not> P (hd s)" "\<not> P (last s)" by auto
  from Cons h(1) have d: "dropWhile P s = s" by simp
  have r: "rev s \<noteq> []" and hr: "hd (rev s) = last s" using Cons by (simp_all add: hd_rev)
  have "\<not> P (hd (rev s))" unfolding hr by (rule h(2))
  with r have "dropWhile P (rev s) = rev s" by (rule dropWhile_hd)
  then show ?thesis unfolding strip_by_def d by simp
qed

text \<open>The collapsing of white space leaves no two white space characters side by side.\<close>

lemma ws2_match:
  assumes "is_space x" "is_space y"
  shows "ends U rx_ws2 (p, x # y # rest, g) \<noteq> []
     \<and> fst (snd (hd (ends U rx_ws2 (p, x # y # rest, g)))) = dropWhile is_space rest"
proof -
  have "ends U rx_ws2 (p, x # y # rest, g) = many (atom_ok U Space) (Some y, rest, g)"
    using assms by (simp add: rx_ws2_def)
  with many_hd[of "atom_ok U Space" "Some y" rest g] show ?thesis
    by (simp add: atom_ok.simps[abs_def])
qed

lemma ws2_none:
  assumes "\<not> (\<exists>x y rest. cs = x # y # rest \<and> is_space x \<and> is_space y)"
  shows "ends U rx_ws2 (p, cs, g) = []"
proof (cases cs)
  case Nil
  then show ?thesis by (simp add: rx_ws2_def)
next
  case (Cons x cs1)
  with assms show ?thesis by (cases cs1) (auto simp: rx_ws2_def)
qed

lemma collapse_inv:
  "no_ws2 (re_sub_from U rx_ws2 [32] False p cs)
   \<and> (re_sub_from U rx_ws2 [32] False p cs \<noteq> []
        \<and> is_space (hd (re_sub_from U rx_ws2 [32] False p cs))
      \<longrightarrow> cs \<noteq> [] \<and> is_space (hd cs))"
proof (induction "length cs" arbitrary: cs p rule: less_induct)
  case less
  show ?case
  proof (cases "\<exists>x y rest. cs = x # y # rest \<and> is_space x \<and> is_space y")
    case True
    then obtain x y rest where cs: "cs = x # y # rest" and sp: "is_space x" "is_space y" by blast
    let ?d = "dropWhile is_space rest"
    from ws2_match[OF sp, of U p rest Map.empty]
    obtain p' g' where ne: "ends U rx_ws2 (p, cs, Map.empty) \<noteq> []"
      and h: "hd (ends U rx_ws2 (p, cs, Map.empty)) = (p', ?d, g')"
      unfolding cs by (cases "hd (ends U rx_ws2 (p, x # y # rest, Map.empty))") auto
    have len: "length ?d < length cs" using length_dropWhile_le[of is_space rest] cs by simp
    from sub_match[OF ne h len, of "[32]"]
    have out: "re_sub_from U rx_ws2 [32] False p cs = 32 # re_sub_from U rx_ws2 [32] False p' ?d"
      by (simp del: re_sub_from.simps)
    from less[OF len, of p'] have ih: "no_ws2 (re_sub_from U rx_ws2 [32] False p' ?d)"
      "re_sub_from U rx_ws2 [32] False p' ?d \<noteq> []
        \<and> is_space (hd (re_sub_from U rx_ws2 [32] False p' ?d)) \<longrightarrow> ?d \<noteq> [] \<and> is_space (hd ?d)"
      by (simp_all del: re_sub_from.simps)
    have "?d \<noteq> [] \<Longrightarrow> \<not> is_space (hd ?d)" by (rule hd_dropWhile)
    with ih show ?thesis unfolding out no_ws2_Cons using cs sp
      by (auto simp del: re_sub_from.simps)
  next
    case False
    from sub_nomatch[OF ws2_none[OF False, of U p Map.empty], of "[32]"]
    have out: "re_sub_from U rx_ws2 [32] False p cs
       = (case cs of [] \<Rightarrow> [] | c # cs' \<Rightarrow> c # re_sub_from U rx_ws2 [32] False (Some c) cs')" .
    show ?thesis
    proof (cases cs)
      case Nil
      with out show ?thesis by (simp del: re_sub_from.simps)
    next
      case (Cons c cs')
      with out have o: "re_sub_from U rx_ws2 [32] False p cs
         = c # re_sub_from U rx_ws2 [32] False (Some c) cs'" by (simp del: re_sub_from.simps)
      from less[of cs' "Some c"] Cons
      have ih: "no_ws2 (re_sub_from U rx_ws2 [32] False (Some c) cs')"
        "re_sub_from U rx_ws2 [32] False (Some c) cs' \<noteq> []
          \<and> is_space (hd (re_sub_from U rx_ws2 [32] False (Some c) cs'))
         \<longrightarrow> cs' \<noteq> [] \<and> is_space (hd cs')"
        by (simp_all del: re_sub_from.simps)
      have "\<not> (is_space c \<and> cs' \<noteq> [] \<and> is_space (hd cs'))"
        using False Cons by (cases cs') auto
      with ih show ?thesis unfolding o no_ws2_Cons using Cons
        by (auto simp del: re_sub_from.simps)
    qed
  qed
qed

lemma collapse_keeps:
  "no_ws2 s \<Longrightarrow> re_sub_from U rx_ws2 rep False p s = s"
proof (induction s arbitrary: p)
  case Nil
  have "ends U rx_ws2 (p, [], Map.empty) = []" by (rule ws2_none) simp
  from sub_nomatch[OF this, of rep] show ?case by (simp del: re_sub_from.simps)
next
  case (Cons c s)
  have "ends U rx_ws2 (p, c # s, Map.empty) = []"
    using Cons.prems by (intro ws2_none) auto
  from sub_nomatch[OF this, of rep] Cons show ?case
    by (simp add: no_ws2_Cons del: re_sub_from.simps)
qed

lemma clean_title_tidy:
  "no_ws2 (clean_title U s)
   \<and> (clean_title U s \<noteq> []
        \<longrightarrow> \<not> is_space (hd (clean_title U s)) \<and> \<not> is_space (last (clean_title U s)))"
proof -
  define x where "x = re_sub U rx_ws2 (str '' '')
     (re_sub U rx_pipe [] (re_sub U rx_token [] (re_sub U rx_paren [] (re_sub U rx_bracket [] s))))"
  have c: "clean_title U s = strip_by is_space (strip_by (\<lambda>c. c \<in> set (str '' -|'')) x)"
    by (simp add: clean_title_def Let_def x_def py_strip_def py_strip_chars_def)
  have "no_ws2 x" unfolding x_def re_sub_def using collapse_inv[of U None]
    by (simp add: str_def del: re_sub_from.simps)
  then have "no_ws2 (clean_title U s)" unfolding c by (intro no_ws2_strip)
  with strip_by_ends[of is_space "strip_by (\<lambda>c. c \<in> set (str '' -|'')) x"] show ?thesis
    unfolding c by blast
qed

text \<open>
  C3.  \<open>_clean_title\<close> applied to its own result gives the same string.  A removal can
  bring together what a second pass removes: \<open>"lyric mv video"\<close> is cleaned to
  \<open>"lyric video"\<close>, and that to the empty string.  What holds is the spec's own
  restriction, once the boilerplate is removed: if the four removals (brackets,
  parenthesised vocabulary, vocabulary words, pipe) leave the cleaned string \<open>t\<close> as it
  is, and \<open>t\<close> neither begins nor ends with \<open>-\<close> or \<open>|\<close>, then cleaning \<open>t\<close> again
  returns \<open>t\<close>: the collapsing of white space and the two strips never have work left
  on a cleaned string.
\<close>

theorem clean_title_fixpoint:
  assumes "t = clean_title U s"
    and "re_sub U rx_bracket [] t = t" and "re_sub U rx_paren [] t = t"
    and "re_sub U rx_token [] t = t" and "re_sub U rx_pipe [] t = t"
    and "t = [] \<or> hd t \<notin> {45, 124} \<and> last t \<notin> {45, 124}"
  shows "clean_title U t = t"
proof -
  from clean_title_tidy[of U s] assms(1)
  have n: "no_ws2 t" and e: "t \<noteq> [] \<longrightarrow> \<not> is_space (hd t) \<and> \<not> is_space (last t)" by simp_all
  have w: "re_sub U rx_ws2 (str '' '') t = t"
    unfolding re_sub_def by (rule collapse_keeps[OF n])
  have sp: "is_space 32" by (simp add: is_space_def)
  have "t = [] \<or> \<not> (hd t \<in> set (str '' -|'')) \<and> \<not> (last t \<in> set (str '' -|''))"
    using assms(6) e sp by (auto simp: str_def)
  then have a: "py_strip_chars (str '' -|'') t = t"
    unfolding py_strip_chars_def by (rule strip_by_id)
  have b: "py_strip t = t" unfolding py_strip_def using e by (intro strip_by_id) blast
  show ?thesis by (simp add: clean_title_def Let_def assms(2-5) w a b)
qed

text \<open>\<open>"Hi [MV]"\<close> is cleaned to \<open>"Hi"\<close>, which no step changes.\<close>

theorem clean_title_fixpoint_witness:
  "clean_title ascii_tables (str ''Hi [MV]'') = str ''Hi''
   \<and> clean_title ascii_tables (str ''Hi'') = str ''Hi''"
proof -
  have t: "str ''Hi'' = clean_title ascii_tables (str ''Hi [MV]'')"
    by (simp add: clean_title_def Let_def string_defs regex_defs pattern_defs ascii_tables_def)
  have "clean_title ascii_tables (str ''Hi'') = str ''Hi''"
  proof (rule clean_title_fixpoint[OF t])
    show "re_sub ascii_tables rx_bracket [] (str ''Hi'') = str ''Hi''"
      by (simp add: string_defs regex_defs pattern_defs ascii_tables_def)
    show "re_sub ascii_tables rx_paren [] (str ''Hi'') = str ''Hi''"
      by (simp add: string_defs regex_defs pattern_defs ascii_tables_def)
    show "re_sub ascii_tables rx_token [] (str ''Hi'') = str ''Hi''"
      by (simp add: string_defs regex_defs pattern_defs ascii_tables_def)
    show "re_sub ascii_tables rx_pipe [] (str ''Hi'') = str ''Hi''"
      by (simp add: string_defs regex_defs pattern_defs ascii_tables_def)
    show "str ''Hi'' = [] \<or> hd (str ''Hi'') \<notin> {45, 124} \<and> last (str ''Hi'') \<notin> {45, 124}"
      by (simp add: str_def)
  qed
  with t show ?thesis by simp
qed

text \<open>The second cleaning of \<open>"lyric mv video"\<close> differs from the first.\<close>

theorem clean_title_twice_counterexample:
  "clean_title ascii_tables (str ''lyric mv video'') = str ''lyric video''
   \<and> clean_title ascii_tables (clean_title ascii_tables (str ''lyric mv video'')) = []"
proof -
  have a: "clean_title ascii_tables (str ''lyric mv video'') = str ''lyric video''"
    by (simp add: clean_title_def Let_def string_defs regex_defs pattern_defs ascii_tables_def)
  have b: "clean_title ascii_tables (str ''lyric video'') = []"
    by (simp add: clean_title_def Let_def string_defs regex_defs pattern_defs ascii_tables_def)
  show ?thesis unfolding a using a b by simp
qed

section \<open>TitleArtistExtractor: the second pattern\<close>

lemma try_patterns_without_b:
  "try_patterns U patterns t = try_patterns U patterns_without_b t"
  by (auto simp: patterns_def patterns_without_b_def Let_def split: option.splits)

text \<open>
  C5.  The second separator pattern never decides a result: the extractor with the three
  patterns returns what it returns with the first and the third alone.  The first two
  patterns are one expression with the group names exchanged, so the second matches
  exactly when the first does, with the same two texts, and is rejected by the same test.
\<close>

theorem pattern_b_dead:
  "extract_title_artist U v c = extract_with U patterns_without_b v c"
  by (simp add: extract_title_artist_def extract_with_def try_patterns_without_b)

section \<open>TitleArtistExtractor: no exception\<close>

lemma many_caps: "(p', cs', g') \<in> set (many P (p, cs, g)) \<Longrightarrow> g' = g"
  by (induction cs arbitrary: p) (auto split: if_splits)

lemma few_caps: "(p', cs', g') \<in> set (few P (p, cs, g)) \<Longrightarrow> g' = g"
  by (induction cs arbitrary: p) (auto split: if_splits)

lemma ends_groups:
  "(p', cs', g') \<in> set (ends U r (p, cs, g)) \<Longrightarrow> dom g \<union> sure_groups r \<subseteq> dom g'"
proof (induction r arbitrary: p cs g p' cs' g')
  case (Cat r1 r2)
  from Cat.prems obtain p1 cs1 g1 where
    m: "(p1, cs1, g1) \<in> set (ends U r1 (p, cs, g))" and
    e: "(p', cs', g') \<in> set (ends U r2 (p1, cs1, g1))"
    by auto
  from Cat.IH(1)[OF m] Cat.IH(2)[OF e] show ?case unfolding sure_groups.simps by blast
next
  case (Alt r1 r2)
  then show ?case by fastforce
next
  case (Opt r)
  then show ?case by fastforce
next
  case (Grp n r)
  from Grp.prems obtain g1 where
    m: "(p', cs', g1) \<in> set (ends U r (p, cs, g))" and
    g: "g' = g1(n \<mapsto> take (length cs - length cs') cs)"
    by auto
  from Grp.IH[OF m] g show ?case by auto
qed (auto split: list.splits if_splits dest: many_caps few_caps)

lemma re_match_groups:
  assumes "re_match U r s = Some g" shows "sure_groups r \<subseteq> dom g"
proof -
  from assms obtain p cs rest where "ends U r (None, s, Map.empty) = (p, cs, g) # rest"
    by (auto simp: re_match_def split: list.splits)
  then have "(p, cs, g) \<in> set (ends U r (None, s, Map.empty))" by simp
  from ends_groups[OF this] show ?thesis by simp
qed

lemma try_patterns_ok:
  "\<forall>p\<in>set ps. artist_group p \<in> sure_groups (pat_rx p) \<and> title_group p \<in> sure_groups (pat_rx p)
   \<Longrightarrow> \<exists>r. try_patterns U ps t = Inr r"
proof (induction ps)
  case Nil
  then show ?case by simp
next
  case (Cons p ps)
  then obtain r where r: "try_patterns U ps t = Inr r" by auto
  show ?case
  proof (cases "re_match U (pat_rx p) t")
    case None
    with r show ?thesis by simp
  next
    case (Some g)
    from re_match_groups[OF Some] Cons.prems
    have "artist_group p \<in> dom g" "title_group p \<in> dom g" by auto
    then obtain a ti where "g (artist_group p) = Some a" "g (title_group p) = Some ti"
      by (blast dest: domD)
    with Some r show ?thesis by (simp add: Let_def)
  qed
qed

lemma patterns_sure:
  "\<forall>p\<in>set patterns. artist_group p \<in> sure_groups (pat_rx p) \<and> title_group p \<in> sure_groups (pat_rx p)"
  by (simp add: patterns_def rx_sep_def)

lemma iu_example:
  "extract_title_artist ascii_tables (Some (str ''IU - Good Day'')) (Some (str ''IU''))
     = Inr (str ''Good Day'', str ''IU'')"
  by (simp add: extract_title_artist_def extract_with_def patterns_def or_empty_def clean_title_def
      string_defs regex_defs pattern_defs ascii_tables_def)

text \<open>
  C4.  The extractor returns a pair of strings for every two arguments (strings or
  \<open>None\<close>): the only operation in it that can raise is \<open>_clean_title\<close> on a group that took
  no part in a match, and both groups of each separator pattern take part in every match.
\<close>

theorem extract_total:
  "\<exists>ti ar. extract_title_artist U v c = Inr (ti, ar)"
proof -
  let ?t = "clean_title U (or_empty v)"
  from try_patterns_ok[OF patterns_sure] obtain r where r: "try_patterns U patterns ?t = Inr r"
    by blast
  show ?thesis
    by (cases r) (auto simp: extract_title_artist_def extract_with_def Let_def r)
qed

theorem extract_total_witness:
  "extract_title_artist ascii_tables (Some (str ''IU - Good Day'')) (Some (str ''IU''))
     = Inr (str ''Good Day'', str ''IU'')"
proof -
  from extract_total [of ascii_tables "Some (str ''IU - Good Day'')" "Some (str ''IU'')"]
  obtain ti ar where
    "extract_title_artist ascii_tables (Some (str ''IU - Good Day'')) (Some (str ''IU''))
       = Inr (ti, ar)" by blast
  with iu_example show ?thesis by simp
qed

section \<open>RecommendationRanker: the score\<close>

lemma demo_prefs_eval:
  "demo_prefs = \<lparr>pref_keywords = [str ''iu'', str ''Ballad'', str ''day''],
     keywords_lower = [str ''iu'', str ''ballad'', str ''day''],
     penalty_terms = [str ''live'', str ''cover'', str ''remix'']\<rparr>"
  by (simp add: demo_prefs_def build_user_prefs_def string_defs ascii_tables_def)

lemma demo_kw_score: "kw_score ascii_tables demo_item demo_prefs = 6"
  by (simp add: demo_prefs_eval kw_score_def item_text_def item_title_def item_artist_def
      demo_item_def string_defs ascii_tables_def)

lemma demo_penalty: "penalty ascii_tables demo_item demo_prefs = 1"
  by (simp add: demo_prefs_eval penalty_def kw_has_penalty_terms_def item_text_def
      item_title_def item_artist_def demo_item_def string_defs regex_defs pattern_defs
      ascii_tables_def)

text \<open>
  C9.  For a record with no views the popularity component is exactly \<open>0\<close>, and the score
  is the keyword score times 1.5 minus the penalty times 0.8.
\<close>

theorem score_views_zero:
  "views it = 0 \<Longrightarrow>
   pop_score it = Inr 0 \<and> score_item U it p = Inr (kw_score U it p * 1.5 - penalty U it p * 0.8)"
  by (simp add: pop_score_def score_item_def)

theorem score_views_zero_witness:
  "views demo_item = 0 \<and> pop_score demo_item = Inr 0
   \<and> score_item ascii_tables demo_item demo_prefs = Inr 8.2"
proof -
  have v: "views demo_item = 0" by (simp add: demo_item_def)
  from score_views_zero [OF v, of ascii_tables demo_prefs] v demo_kw_score demo_penalty
  show ?thesis by simp
qed

section \<open>RecommendationRanker: the penalty\<close>

lemma ends_lit:
  "ends U (lit t) (p, cs, g) =
     (if take (length t) cs = t then [(if t = [] then p else Some (last t), drop (length t) cs, g)] else [])"
proof (induction t arbitrary: p cs)
  case Nil
  then show ?case by simp
next
  case (Cons a t)
  show ?case
  proof (cases cs)
    case Nil
    then show ?thesis by simp
  next
    case (Cons c cs')
    then show ?thesis using Cons.IH[of "Some a" cs'] by (cases "t = []") auto
  qed
qed

lemma ends_rx_word:
  assumes "t \<noteq> []" "\<forall>c\<in>set t. is_word U c"
  shows "ends U (rx_word t) (p, cs, g) \<noteq> [] \<longleftrightarrow>
     (\<exists>post. cs = t @ post \<and> \<not> word_before U p \<and> \<not> word_after U post)"
proof -
  from assms obtain a t' where t: "t = a # t'" by (cases t) auto
  have wa: "word_after U (t @ post) = True" for post using assms t by (simp add: word_after_def)
  have wb: "word_before U (Some (last t)) = True" using assms by (simp add: word_before_def)
  show ?thesis
  proof
    assume ne: "ends U (rx_word t) (p, cs, g) \<noteq> []"
    then have tk: "take (length t) cs = t"
      by (auto simp: rx_word_def ends_lit split: if_splits)
    then have cs: "cs = t @ drop (length t) cs" by (metis append_take_drop_id)
    from ne tk have "word_before U p \<noteq> word_after U cs"
      by (auto simp: rx_word_def ends_lit split: if_splits)
    moreover from ne tk assms(1) have "word_before U (Some (last t)) \<noteq> word_after U (drop (length t) cs)"
      by (auto simp: rx_word_def ends_lit split: if_splits)
    ultimately show "\<exists>post. cs = t @ post \<and> \<not> word_before U p \<and> \<not> word_after U post"
      using cs wa[of "drop (length t) cs"] wb by metis
  next
    assume "\<exists>post. cs = t @ post \<and> \<not> word_before U p \<and> \<not> word_after U post"
    then obtain post where "cs = t @ post" "\<not> word_before U p" "\<not> word_after U post" by blast
    then show "ends U (rx_word t) (p, cs, g) \<noteq> []"
      using wa[of post] wb assms(1) by (simp add: rx_word_def ends_lit)
  qed
qed

lemma search_rx_word:
  assumes "t \<noteq> []" "\<forall>c\<in>set t. is_word U c"
  shows "search_from U (rx_word t) p cs \<longleftrightarrow>
     (\<exists>pre post. cs = pre @ t @ post
        \<and> \<not> word_before U (if pre = [] then p else Some (last pre)) \<and> \<not> word_after U post)"
proof (induction cs arbitrary: p)
  case Nil
  show ?case using assms(1) by (simp add: ends_rx_word[OF assms])
next
  case (Cons c cs)
  let ?R = "\<lambda>q pre post. \<not> word_before U (if pre = [] then q else Some (last pre)) \<and> \<not> word_after U post"
  have "(\<exists>pre post. c # cs = pre @ t @ post \<and> ?R p pre post)
      \<longleftrightarrow> (\<exists>post. c # cs = t @ post \<and> ?R p [] post)
        \<or> (\<exists>pre post. cs = pre @ t @ post \<and> ?R (Some c) pre post)"
  proof (intro iffI)
    assume "\<exists>pre post. c # cs = pre @ t @ post \<and> ?R p pre post"
    then obtain pre post where e: "c # cs = pre @ t @ post" and r: "?R p pre post" by blast
    show "(\<exists>post. c # cs = t @ post \<and> ?R p [] post)
        \<or> (\<exists>pre post. cs = pre @ t @ post \<and> ?R (Some c) pre post)"
    proof (cases pre)
      case Nil
      with e r show ?thesis by auto
    next
      case (Cons d pre')
      with e have "cs = pre' @ t @ post" "d = c" by auto
      moreover from r Cons \<open>d = c\<close> have "?R (Some c) pre' post" by (cases "pre' = []") auto
      ultimately show ?thesis by blast
    qed
  next
    assume "(\<exists>post. c # cs = t @ post \<and> ?R p [] post)
        \<or> (\<exists>pre post. cs = pre @ t @ post \<and> ?R (Some c) pre post)"
    then show "\<exists>pre post. c # cs = pre @ t @ post \<and> ?R p pre post"
    proof
      assume "\<exists>post. c # cs = t @ post \<and> ?R p [] post"
      then obtain post where "c # cs = [] @ t @ post" "?R p [] post" by auto
      then show ?thesis by blast
    next
      assume "\<exists>pre post. cs = pre @ t @ post \<and> ?R (Some c) pre post"
      then obtain pre post where e: "cs = pre @ t @ post" and r: "?R (Some c) pre post" by blast
      then have "c # cs = (c # pre) @ t @ post" "?R p (c # pre) post" by (cases "pre = []"; simp)+
      then show ?thesis by blast
    qed
  qed
  then show ?case
    using Cons.IH[of "Some c"] ends_rx_word[OF assms, of p "c # cs" Map.empty] by simp
qed

lemma re_search_whole_word:
  assumes "t \<noteq> []" "\<forall>c\<in>set t. is_word U c"
  shows "re_search U (rx_word t) txt = whole_word U t txt"
proof -
  have a: "\<not> word_before U (if pre = [] then None else Some (last pre)) \<longleftrightarrow> (pre = [] \<or> \<not> is_word U (last pre))" for pre
    by (simp add: word_before_def)
  have b: "\<not> word_after U post \<longleftrightarrow> (post = [] \<or> \<not> is_word U (hd post))" for post
    by (cases post) (simp_all add: word_after_def)
  show ?thesis
    unfolding re_search_def whole_word_def search_rx_word[OF assms] a b ..
qed

lemma penalty_loop_count:
  "penalty_loop U txt ts acc = acc + real (length (filter (\<lambda>t. re_search U (rx_word t) txt) ts))"
  by (induction ts arbitrary: acc) auto

lemma term_chars:
  "\<forall>c\<in>set (str ''live''). is_word U c" "\<forall>c\<in>set (str ''cover''). is_word U c"
  "\<forall>c\<in>set (str ''remix''). is_word U c"
  "str ''live'' \<noteq> []" "str ''cover'' \<noteq> []" "str ''remix'' \<noteq> []"
  by (simp_all add: str_def is_word_def)

lemma cover_prefs_eval:
  "cover_prefs = \<lparr>pref_keywords = [str ''cover''], keywords_lower = [str ''cover''],
     penalty_terms = [str ''live'', str ''cover'', str ''remix'']\<rparr>"
  by (simp add: cover_prefs_def build_user_prefs_def string_defs ascii_tables_def Let_def)

lemma demo_live_word:
  "whole_word ascii_tables (str ''live'') (item_text ascii_tables demo_item)"
  unfolding re_search_whole_word [OF term_chars(4) term_chars(1), symmetric]
  by (simp add: item_text_def item_title_def item_artist_def demo_item_def string_defs
      regex_defs pattern_defs ascii_tables_def)

text \<open>
  C6.  Penalty gating.  When one of the penalty terms \<open>live\<close>, \<open>cover\<close>, \<open>remix\<close> is among
  the lower-case keywords the penalty is \<open>0\<close>; otherwise it is the number of penalty terms
  that occur in the text as a whole word.  So a record with the whole word \<open>live\<close> has no
  penalty when \<open>live\<close> is a keyword, and a penalty of at least \<open>1\<close> when none of the three
  terms is a keyword.  With \<open>cover\<close> as the only keyword the penalty of such a record is
  \<open>0\<close> although \<open>live\<close> is not a keyword.
\<close>

theorem penalty_gating:
  assumes "penalty_terms p = [str ''live'', str ''cover'', str ''remix'']"
  shows "penalty U it p =
       (if \<exists>t\<in>set (penalty_terms p). t \<in> set (keywords_lower p) then 0
        else real (length (filter (\<lambda>t. whole_word U t (item_text U it)) (penalty_terms p))))
     \<and> (str ''live'' \<in> set (keywords_lower p) \<longrightarrow> penalty U it p = 0)
     \<and> ((\<forall>t\<in>set (penalty_terms p). t \<notin> set (keywords_lower p))
          \<and> whole_word U (str ''live'') (item_text U it) \<longrightarrow> 1 \<le> penalty U it p)"
proof -
  let ?txt = "item_text U it"
  have f: "filter (\<lambda>t. re_search U (rx_word t) ?txt) (penalty_terms p)
         = filter (\<lambda>t. whole_word U t ?txt) (penalty_terms p)"
    unfolding assms
    by (rule filter_cong [OF refl]) (auto simp: re_search_whole_word term_chars)
  have g: "kw_has_penalty_terms p \<longleftrightarrow> (\<exists>t\<in>set (penalty_terms p). t \<in> set (keywords_lower p))"
    by (simp add: kw_has_penalty_terms_def list_ex_iff)
  have eq: "penalty U it p =
       (if \<exists>t\<in>set (penalty_terms p). t \<in> set (keywords_lower p) then 0
        else real (length (filter (\<lambda>t. whole_word U t ?txt) (penalty_terms p))))"
    by (simp add: penalty_def g penalty_loop_count f)
  have live: "str ''live'' \<in> set (keywords_lower p) \<longrightarrow> penalty U it p = 0"
    unfolding eq using assms by auto
  have pos: "(\<forall>t\<in>set (penalty_terms p). t \<notin> set (keywords_lower p))
          \<and> whole_word U (str ''live'') ?txt \<longrightarrow> 1 \<le> penalty U it p"
    unfolding eq using assms by auto
  from eq live pos show ?thesis by blast
qed

theorem penalty_gating_witness:
  "penalty_terms demo_prefs = [str ''live'', str ''cover'', str ''remix'']
   \<and> real (length (filter (\<lambda>t. whole_word ascii_tables t (item_text ascii_tables demo_item))
        (penalty_terms demo_prefs))) = 1
   \<and> penalty ascii_tables demo_item cover_prefs = 0"
proof -
  have a: "penalty_terms demo_prefs = [str ''live'', str ''cover'', str ''remix'']"
    by (simp add: demo_prefs_eval)
  have b: "penalty_terms cover_prefs = [str ''live'', str ''cover'', str ''remix'']"
    by (simp add: cover_prefs_eval)
  have n: "\<not> (\<exists>t\<in>set (penalty_terms demo_prefs). t \<in> set (keywords_lower demo_prefs))"
    by (simp add: demo_prefs_eval str_def)
  have c: "\<exists>t\<in>set (penalty_terms cover_prefs). t \<in> set (keywords_lower cover_prefs)"
    by (simp add: cover_prefs_eval)
  from penalty_gating [OF a, of ascii_tables demo_item] n demo_penalty
  have "real (length (filter (\<lambda>t. whole_word ascii_tables t (item_text ascii_tables demo_item))
        (penalty_terms demo_prefs))) = 1" by simp
  moreover from penalty_gating [OF b, of ascii_tables demo_item] c
  have "penalty ascii_tables demo_item cover_prefs = 0" by simp
  ultimately show ?thesis using a by blast
qed

theorem penalty_live_counterexample:
  "str ''live'' \<notin> set (keywords_lower cover_prefs)
   \<and> whole_word ascii_tables (str ''live'') (item_text ascii_tables demo_item)
   \<and> penalty ascii_tables demo_item cover_prefs = 0"
proof -
  have "str ''live'' \<notin> set (keywords_lower cover_prefs)"
    by (simp add: cover_prefs_eval str_def)
  moreover have "penalty ascii_tables demo_item cover_prefs = 0"
    by (simp add: cover_prefs_eval penalty_def kw_has_penalty_terms_def)
  ultimately show ?thesis using demo_live_word by blast
qed

section \<open>RecommendationRanker: the ranking\<close>

lemma score_item_ok: "0 \<le> views it \<Longrightarrow> \<exists>s. score_item U it p = Inr s"
  by (simp add: score_item_def pop_score_def)

lemma alloc_set_score:
  "set_score (length h) v (h @ [x]) = h @ [x\<lparr>score := Some v\<rparr>]"
  by (simp add: set_score_def)

lemma rank_loop_frame:
  "rank_loop U p its ranked h = (r, h') \<Longrightarrow> \<exists>new. h' = h @ new"
proof (induction its arbitrary: ranked h)
  case Nil
  then show ?case by simp
next
  case (Cons a its)
  show ?case
  proof (cases "score_item U (h ! a) p")
    case (Inl e)
    with Cons.prems show ?thesis by simp
  next
    case (Inr s)
    with Cons.prems have "rank_loop U p its (ranked @ [length h]) (h @ [(h ! a)\<lparr>score := Some (round3 s)\<rparr>]) = (r, h')"
      by (simp add: alloc_def alloc_set_score)
    from Cons.IH[OF this] show ?thesis by auto
  qed
qed

lemma rank_loop_ok:
  assumes "\<forall>a\<in>set its. a < length h \<and> 0 \<le> views (h ! a)"
  shows "rank_loop U p its ranked h =
     (Inr (ranked @ [length h ..< length h + length its]),
      h @ map (\<lambda>a. (h ! a)\<lparr>score := Some (round3 (projr (score_item U (h ! a) p)))\<rparr>) its)"
  using assms
proof (induction its arbitrary: ranked h)
  case Nil
  then show ?case by simp
next
  case (Cons a its)
  from Cons.prems have a: "a < length h" "0 \<le> views (h ! a)" by auto
  from score_item_ok[OF a(2)] obtain s where s: "score_item U (h ! a) p = Inr s" by blast
  let ?x = "(h ! a)\<lparr>score := Some (round3 s)\<rparr>"
  have pre: "\<forall>b\<in>set its. b < length (h @ [?x]) \<and> 0 \<le> views ((h @ [?x]) ! b)"
    using Cons.prems by (auto simp: nth_append)
  have m: "map (\<lambda>b. ((h @ [?x]) ! b)\<lparr>score := Some (round3 (projr (score_item U ((h @ [?x]) ! b) p)))\<rparr>) its
         = map (\<lambda>b. (h ! b)\<lparr>score := Some (round3 (projr (score_item U (h ! b) p)))\<rparr>) its"
    using Cons.prems by (auto simp: nth_append)
  have u: "[length h ..< length h + length (a # its)] = length h # [Suc (length h) ..< Suc (length h) + length its]"
    by (subst upt_rec) simp
  show ?case
    using Cons.IH[OF pre, of "ranked @ [length h]"] s m u
    by (simp add: alloc_def alloc_set_score)
qed

lemma sort_keys_ok:
  "\<forall>x\<in>set xs. score (h ! x) = Some (k x) \<Longrightarrow> sort_keys h xs = Inr (map (\<lambda>x. (k x, x)) xs)"
  by (induction xs) auto

lemma sort_reverse_mset: "mset (sort_reverse kxs) = mset (map snd kxs)"
  by (simp add: sort_reverse_def)

lemma sort_reverse_sorted:
  "sort_reverse (map (\<lambda>x. (k x, x)) xs) = ys \<Longrightarrow> sorted_wrt (\<lambda>a b. k b \<le> k a) ys"
proof -
  assume e: "sort_reverse (map (\<lambda>x. (k x, x)) xs) = ys"
  let ?S = "sort_key fst (rev (map (\<lambda>x. (k x, x)) xs))"
  have inv: "\<forall>kx\<in>set ?S. fst kx = k (snd kx)" by auto
  have "sorted (map fst ?S)" by simp
  then have "sorted_wrt (\<lambda>a b. fst a \<le> fst b) ?S" by (simp add: sorted_map)
  then have "sorted_wrt (\<lambda>a b. fst b \<le> fst a) (rev ?S)" by (simp add: sorted_wrt_rev)
  then have "sorted_wrt (\<lambda>a b. k (snd b) \<le> k (snd a)) (rev ?S)"
    using inv by (auto intro: sorted_wrt_mono_rel[rotated])
  then have "sorted_wrt (\<lambda>a b. k b \<le> k a) (map snd (rev ?S))" by (simp add: sorted_wrt_map)
  with e show ?thesis by (simp add: sort_reverse_def)
qed

lemma sort_reverse_stable:
  "filter (\<lambda>x. k x = v) (sort_reverse (map (\<lambda>x. (k x, x)) xs)) = filter (\<lambda>x. k x = v) xs"
proof -
  let ?kxs = "map (\<lambda>x. (k x, x)) xs"
  let ?S = "sort_key fst (rev ?kxs)"
  have inv: "\<forall>kx\<in>set (rev ?S). fst kx = k (snd kx)" by auto
  have "filter (\<lambda>x. k x = v) (map snd (rev ?S)) = map snd (filter (\<lambda>kx. k (snd kx) = v) (rev ?S))"
    by (simp add: filter_map comp_def)
  also have "filter (\<lambda>kx. k (snd kx) = v) (rev ?S) = filter (\<lambda>kx. fst kx = v) (rev ?S)"
    using inv by (intro filter_cong) auto
  also have "\<dots> = rev (filter (\<lambda>kx. fst kx = v) ?S)" by (simp add: rev_filter)
  also have "filter (\<lambda>kx. fst kx = v) ?S = filter (\<lambda>kx. fst kx = v) (rev ?kxs)"
    by (rule sort_key_stable)
  also have "rev (filter (\<lambda>kx. fst kx = v) (rev ?kxs)) = filter (\<lambda>kx. fst kx = v) ?kxs"
    by (simp add: rev_filter)
  also have "map snd (filter (\<lambda>kx. fst kx = v) ?kxs) = filter (\<lambda>x. k x = v) xs"
    by (simp add: filter_map comp_def)
  finally show ?thesis by (simp add: sort_reverse_def)
qed

lemma filter_sorted_nth:
  "sorted_wrt R (filter P xs) \<Longrightarrow> i < j \<Longrightarrow> j < length xs \<Longrightarrow> P (xs ! i) \<Longrightarrow> P (xs ! j)
   \<Longrightarrow> R (xs ! i) (xs ! j)"
proof (induction xs arbitrary: i j)
  case Nil
  then show ?case by simp
next
  case (Cons x xs)
  from Cons.prems(2) obtain j' where j: "j = Suc j'" by (cases j) auto
  show ?case
  proof (cases i)
    case 0
    with Cons.prems j show ?thesis by auto
  next
    case (Suc i')
    from Cons.prems(1) have "sorted_wrt R (filter P xs)" by (cases "P x") auto
    from Cons.IH[OF this, of i' j'] Cons.prems Suc j show ?thesis by simp
  qed
qed

lemma snd_rank: "snd (rank_recommendations U h items p) = snd (rank_loop U p items [] h)"
  by (simp add: rank_recommendations_def split: prod.splits sum.splits)

text \<open>
  C10.  Ranking leaves every object that existed before the call as it was: the heap after
  the call is the heap before it followed by the new copies, so each input record is
  unchanged, and the score is written to the copies only.
\<close>

theorem rank_frame:
  "(\<exists>new. snd (rank_recommendations U h items p) = h @ new)
   \<and> (\<forall>a\<in>set items. a < length h \<longrightarrow> snd (rank_recommendations U h items p) ! a = h ! a)"
proof -
  obtain r h' where rl: "rank_loop U p items [] h = (r, h')" by (cases "rank_loop U p items [] h")
  from rank_loop_frame[OF rl] obtain new where "h' = h @ new" by blast
  with rl have "snd (rank_recommendations U h items p) = h @ new" by (simp add: snd_rank)
  then show ?thesis by (auto simp: nth_append)
qed

theorem rank_frame_witness:
  "(\<exists>new. snd (rank_recommendations ascii_tables demo_heap [0, 1] demo_prefs) = demo_heap @ new)
   \<and> snd (rank_recommendations ascii_tables demo_heap [0, 1] demo_prefs) ! 0 = demo_item
   \<and> snd (rank_recommendations ascii_tables demo_heap [0, 1] demo_prefs) ! 1 = demo_item2"
  using rank_frame[of ascii_tables demo_heap "[0, 1]" demo_prefs]
  by (simp add: demo_heap_def)

text \<open>
  C7.  For input records with a view count of at least \<open>0\<close>, ranking returns one copy of
  every input record and nothing else (the copy of the \<open>i\<close>-th input is the \<open>i\<close>-th new
  object, equal to the input but for its score, which is the rounded value of
  \<open>score_item\<close>), in order of non-increasing score, and copies with equal scores in
  the order of their inputs.
\<close>

theorem rank_sorted_stable:
  assumes ok: "\<forall>a\<in>set items. a < length h \<and> 0 \<le> views (h ! a)"
  shows "\<exists>ranked h'. rank_recommendations U h items p = (Inr ranked, h')
     \<and> length ranked = length items
     \<and> mset ranked = mset [length h ..< length h + length items]
     \<and> (\<forall>i<length items. \<exists>s. score_item U (h ! (items ! i)) p = Inr s
            \<and> h' ! (length h + i) = (h ! (items ! i))\<lparr>score := Some (round3 s)\<rparr>)
     \<and> mset (map (\<lambda>a. (h' ! a)\<lparr>score := None\<rparr>) ranked) = mset (map (\<lambda>a. (h ! a)\<lparr>score := None\<rparr>) items)
     \<and> sorted_wrt (\<lambda>a b. the (score (h' ! b)) \<le> the (score (h' ! a))) ranked
     \<and> (\<forall>i j. i < j \<and> j < length ranked \<and> score (h' ! (ranked ! i)) = score (h' ! (ranked ! j))
            \<longrightarrow> ranked ! i < ranked ! j)"
proof -
  let ?n = "length items"
  let ?copies = "[length h ..< length h + ?n]"
  let ?F = "\<lambda>a. (h ! a)\<lparr>score := Some (round3 (projr (score_item U (h ! a) p)))\<rparr>"
  let ?h' = "h @ map ?F items"
  let ?k = "\<lambda>a. the (score (?h' ! a))"
  let ?ranked = "sort_reverse (map (\<lambda>x. (?k x, x)) ?copies)"
  have loop: "rank_loop U p items [] h = (Inr ?copies, ?h')"
    using rank_loop_ok[OF ok, of U p "[]"] by simp
  have cell: "?h' ! (length h + i) = ?F (items ! i)" if "i < ?n" for i
    using that by (simp add: nth_append)
  have keys: "\<forall>x\<in>set ?copies. score (?h' ! x) = Some (?k x)"
  proof
    fix x assume "x \<in> set ?copies"
    then have "length h \<le> x" "x < length h + ?n" by auto
    then have "x = length h + (x - length h)" "x - length h < ?n" by arith+
    then show "score (?h' ! x) = Some (?k x)" using cell[of "x - length h"] by simp
  qed
  have run: "rank_recommendations U h items p = (Inr ?ranked, ?h')"
    by (simp add: rank_recommendations_def loop sort_keys_ok[OF keys])
  have ms: "mset ?ranked = mset ?copies"
    by (simp add: sort_reverse_mset comp_def)
  have len: "length ?ranked = ?n"
    by (simp add: sort_reverse_def)
  have cells: "\<forall>i<?n. \<exists>s. score_item U (h ! (items ! i)) p = Inr s
       \<and> ?h' ! (length h + i) = (h ! (items ! i))\<lparr>score := Some (round3 s)\<rparr>"
  proof (intro allI impI)
    fix i assume i: "i < ?n"
    with ok have "0 \<le> views (h ! (items ! i))" by simp
    from score_item_ok[OF this] obtain s where "score_item U (h ! (items ! i)) p = Inr s" by blast
    with cell[OF i] show "\<exists>s. score_item U (h ! (items ! i)) p = Inr s
       \<and> ?h' ! (length h + i) = (h ! (items ! i))\<lparr>score := Some (round3 s)\<rparr>" by simp
  qed
  have "map (\<lambda>a. (?h' ! a)\<lparr>score := None\<rparr>) ?copies = map (\<lambda>a. (h ! a)\<lparr>score := None\<rparr>) items"
    by (rule nth_equalityI) (simp_all add: nth_append)
  moreover have "mset (map (\<lambda>a. (?h' ! a)\<lparr>score := None\<rparr>) ?ranked) = mset (map (\<lambda>a. (?h' ! a)\<lparr>score := None\<rparr>) ?copies)"
  proof -
    have "image_mset (\<lambda>a. (?h' ! a)\<lparr>score := None\<rparr>) (mset ?ranked) = image_mset (\<lambda>a. (?h' ! a)\<lparr>score := None\<rparr>) (mset ?copies)"
      by (simp only: ms)
    then show ?thesis by (simp only: mset_map)
  qed
  ultimately have recs: "mset (map (\<lambda>a. (?h' ! a)\<lparr>score := None\<rparr>) ?ranked) = mset (map (\<lambda>a. (h ! a)\<lparr>score := None\<rparr>) items)"
    by simp
  have srt: "sorted_wrt (\<lambda>a b. ?k b \<le> ?k a) ?ranked"
    by (rule sort_reverse_sorted[OF refl])
  have ties: "\<forall>i j. i < j \<and> j < length ?ranked \<and> score (?h' ! (?ranked ! i)) = score (?h' ! (?ranked ! j))
            \<longrightarrow> ?ranked ! i < ?ranked ! j"
  proof (intro allI impI)
    fix i j assume a: "i < j \<and> j < length ?ranked \<and> score (?h' ! (?ranked ! i)) = score (?h' ! (?ranked ! j))"
    let ?v = "?k (?ranked ! j)"
    have "filter (\<lambda>x. ?k x = ?v) ?ranked = filter (\<lambda>x. ?k x = ?v) ?copies"
      by (rule sort_reverse_stable)
    moreover have "sorted_wrt (<) (filter (\<lambda>x. ?k x = ?v) ?copies)"
      by (rule sorted_wrt_filter) (simp add: sorted_wrt_upt)
    ultimately have "sorted_wrt (<) (filter (\<lambda>x. ?k x = ?v) ?ranked)" by simp
    from filter_sorted_nth[OF this, of i j] a show "?ranked ! i < ?ranked ! j" by simp
  qed
  from run len ms cells recs srt ties show ?thesis by blast
qed

theorem rank_sorted_stable_witness:
  "0 \<le> views demo_item \<and> 0 \<le> views demo_item2
   \<and> (\<exists>ranked h'. rank_recommendations ascii_tables demo_heap [0, 1] demo_prefs = (Inr ranked, h')
        \<and> length ranked = 2 \<and> mset ranked = mset [2, 3]
        \<and> sorted_wrt (\<lambda>a b. the (score (h' ! b)) \<le> the (score (h' ! a))) ranked)"
proof -
  have h: "\<forall>a\<in>set [0, 1]. a < length demo_heap \<and> 0 \<le> views (demo_heap ! a)"
    by (simp add: demo_heap_def demo_item_def demo_item2_def)
  have u: "[length demo_heap ..< length demo_heap + length [0::nat, 1]] = [2, 3]"
    by (simp add: demo_heap_def upt_rec)
  from rank_sorted_stable[OF h, of ascii_tables demo_prefs] u
  have "\<exists>ranked h'. rank_recommendations ascii_tables demo_heap [0, 1] demo_prefs = (Inr ranked, h')
        \<and> length ranked = 2 \<and> mset ranked = mset [2, 3]
        \<and> sorted_wrt (\<lambda>a b. the (score (h' ! b)) \<le> the (score (h' ! a))) ranked"
    by auto
  then show ?thesis by (simp add: demo_item_def demo_item2_def)
qed

end
